theory Spec2Isabelle
  imports Complex_Main "HOL-Library.Word" "HOL-Library.List_Lexorder" "HOL-Library.Sublist"
begin

section \<open>The deduplication cache (FIFOCache)\<close>

text \<open>
  The Go struct holds a map used as a set of URLs, a doubly linked list whose front is the
  newest URL, and the capacity. The mutex makes every method call atomic, so each method
  is one function on the state. \<open>maxSize\<close> is a Go \<open>int\<close>: it may be negative.
\<close>

record FIFOCache =
  cache :: "string set"
  list :: "string list"
  maxSize :: int

definition NewFIFOCache :: "int \<Rightarrow> FIFOCache" where
  "NewFIFOCache n = \<lparr>cache = {}, list = [], maxSize = n\<rparr>"

text \<open>
  The eviction loop of \<open>Set\<close>: while the list is longer than \<open>maxSize\<close>, take the back
  element, delete it from the map and unlink it. \<open>list.Back()\<close> of an empty list is
  \<open>nil\<close>, and \<open>item.Value\<close> then panics: the result \<open>None\<close>.
\<close>

function evict :: "FIFOCache \<Rightarrow> FIFOCache option" where
  "evict c =
     (if int (length (list c)) > maxSize c then
        (case list c of
           [] \<Rightarrow> None
         | _ # _ \<Rightarrow> evict (c\<lparr>cache := cache c - {last (list c)}, list := butlast (list c)\<rparr>))
      else Some c)"
  by pat_completeness auto
termination
  by (relation "measure (\<lambda>c. length (list c))") auto

declare evict.simps [simp del]

definition Set :: "string \<Rightarrow> FIFOCache \<Rightarrow> (bool \<times> FIFOCache) option" where
  "Set url c =
     (if url \<in> cache c then Some (False, c)
      else map_option (Pair True)
             (evict (c\<lparr>cache := insert url (cache c), list := url # list c\<rparr>)))"

definition Size :: "FIFOCache \<Rightarrow> int" where
  "Size c = int (card (cache c))"

definition Clear :: "FIFOCache \<Rightarrow> FIFOCache" where
  "Clear c = c\<lparr>cache := {}, list := []\<rparr>"

text \<open>A sequence of calls on one cache; the results of the \<open>Set\<close> calls are collected.\<close>

datatype cache_op = OpSet string | OpClear

fun run_ops :: "FIFOCache \<Rightarrow> cache_op list \<Rightarrow> (FIFOCache \<times> bool list) option" where
  "run_ops c [] = Some (c, [])"
| "run_ops c (OpSet url # ops) =
     (case Set url c of
        None \<Rightarrow> None
      | Some (r, c') \<Rightarrow> map_option (\<lambda>(c'', rs). (c'', r # rs)) (run_ops c' ops))"
| "run_ops c (OpClear # ops) = run_ops (Clear c) ops"


section \<open>The segment store\<close>

text \<open>
  Go's \<open>int\<close>, \<open>int64\<close> and \<open>uint64\<close> are 64-bit words on the platforms the program
  runs on; the conversions between them keep the bits. A \<open>float64\<close> is a finite value,
  taken as a real (the program only carries it), an infinity or a NaN.
\<close>

datatype float64 = Finite real | PosInf | NegInf | NaN

record DatabaseItem =
  ID :: "64 word"
  Name :: string
  Len :: float64
  T :: "64 word"

text \<open>
  \<open>itob\<close> writes the 8 bytes of \<open>uint64(v)\<close> most significant first
  (\<open>binary.BigEndian.PutUint64\<close>).
\<close>

definition itob :: "64 word \<Rightarrow> 8 word list" where
  "itob v = map (\<lambda>i. ucast (drop_bit (8 * i) v)) [7, 6, 5, 4, 3, 2, 1, 0]"

text \<open>
  \<open>bytes.Compare\<close> is the lexicographic comparison of byte strings, bytes being
  unsigned: the order of \<open>8 word list\<close>.
\<close>

definition bytes_Compare :: "8 word list \<Rightarrow> 8 word list \<Rightarrow> int" where
  "bytes_Compare a b = (if a < b then - 1 else if a = b then 0 else 1)"

text \<open>
  A stored value is the JSON text of a \<open>DatabaseItem\<close>. It is represented by what
  \<open>json.Unmarshal\<close> makes of it: \<open>Some item\<close>, or \<open>None\<close> where decoding returns an
  error, as it does for the empty value.
\<close>

type_synonym json = "DatabaseItem option"

text \<open>
  The encoder writes a string rune by rune. \<open>rune_size s\<close> is the number of bytes of the
  UTF-8 sequence that \<open>s\<close> starts with (\<open>utf8.DecodeRuneInString\<close>), and 0 where there is
  none: a wrong first byte, a second byte outside the range that the first byte allows, a
  wrong or missing continuation byte.
\<close>

definition byte_in :: "nat \<Rightarrow> nat \<Rightarrow> char \<Rightarrow> bool" where
  "byte_in lo hi c = (lo \<le> (of_char c :: nat) \<and> (of_char c :: nat) \<le> hi)"

definition tail_ok :: "nat \<Rightarrow> nat \<Rightarrow> nat \<Rightarrow> string \<Rightarrow> bool" where
  "tail_ok lo hi k r =
     (case r of
        [] \<Rightarrow> False
      | c1 # r' \<Rightarrow> byte_in lo hi c1 \<and> k \<le> length r' \<and> list_all (byte_in 0x80 0xBF) (take k r'))"

definition rune_size :: "string \<Rightarrow> nat" where
  "rune_size s =
     (case s of
        [] \<Rightarrow> 0
      | c0 # r \<Rightarrow>
          if byte_in 0x00 0x7F c0 then 1
          else if byte_in 0xC2 0xDF c0 then (if tail_ok 0x80 0xBF 0 r then 2 else 0)
          else if byte_in 0xE0 0xE0 c0 then (if tail_ok 0xA0 0xBF 1 r then 3 else 0)
          else if byte_in 0xE1 0xEC c0 then (if tail_ok 0x80 0xBF 1 r then 3 else 0)
          else if byte_in 0xED 0xED c0 then (if tail_ok 0x80 0x9F 1 r then 3 else 0)
          else if byte_in 0xEE 0xEF c0 then (if tail_ok 0x80 0xBF 1 r then 3 else 0)
          else if byte_in 0xF0 0xF0 c0 then (if tail_ok 0x90 0xBF 2 r then 4 else 0)
          else if byte_in 0xF1 0xF3 c0 then (if tail_ok 0x80 0xBF 2 r then 4 else 0)
          else if byte_in 0xF4 0xF4 c0 then (if tail_ok 0x80 0x8F 2 r then 4 else 0)
          else 0)"

text \<open>
  What decoding makes of an encoded string: a byte that starts no UTF-8 sequence is
  written as the escape of U+FFFD and read back as the three bytes of U+FFFD; every other rune,
  escaped or not, is read back as it was.
\<close>

function json_string :: "string \<Rightarrow> string" where
  "json_string s =
     (case s of
        [] \<Rightarrow> []
      | c # cs \<Rightarrow>
          if rune_size s = 0 then [CHR 0xEF, CHR 0xBF, CHR 0xBD] @ json_string cs
          else take (rune_size s) s @ json_string (drop (rune_size s) s))"
  by pat_completeness auto
termination
  by (relation "measure length") auto

declare json_string.simps [simp del]

text \<open>
  \<open>json.Marshal\<close> returns an error and no bytes for an item whose \<open>Len\<close> is an infinity or
  a NaN. \<open>database_store\<close> drops the error and puts the empty value, which does not decode.
  Otherwise the value decodes to the item, its \<open>Name\<close> as the encoder writes it.
\<close>

definition json_Marshal :: "DatabaseItem \<Rightarrow> json" where
  "json_Marshal item =
     (case Len item of
        Finite x \<Rightarrow> Some (item\<lparr>Name := json_string (Name item)\<rparr>)
      | _ \<Rightarrow> None)"

text \<open>
  The bbolt bucket \<open>main\<close>: its sequence counter and its key/value pairs in ascending
  key order, the order a cursor walks them in. A cursor sees the pairs the transaction
  started with.
\<close>

record Bucket =
  sequence :: "64 word"
  pairs :: "(8 word list \<times> json) list"

definition empty_bucket :: Bucket where
  "empty_bucket = \<lparr>sequence = 0, pairs = []\<rparr>"

fun Put :: "8 word list \<Rightarrow> json \<Rightarrow> (8 word list \<times> json) list \<Rightarrow> (8 word list \<times> json) list" where
  "Put k v [] = [(k, v)]"
| "Put k v ((k', v') # ps) =
     (if bytes_Compare k k' < 0 then (k, v) # (k', v') # ps
      else if bytes_Compare k k' = 0 then (k, v) # ps
      else (k', v') # Put k v ps)"

definition Delete :: "8 word list \<Rightarrow> (8 word list \<times> json) list \<Rightarrow> (8 word list \<times> json) list" where
  "Delete k ps = filter (\<lambda>p. fst p \<noteq> k) ps"

text \<open>\<open>cursor.Seek\<close>: the pairs from the first key that is not below \<open>seek\<close>.\<close>

definition Seek :: "8 word list \<Rightarrow> (8 word list \<times> json) list \<Rightarrow> (8 word list \<times> json) list" where
  "Seek seek ps = dropWhile (\<lambda>p. bytes_Compare (fst p) seek < 0) ps"

text \<open>
  \<open>database_store\<close>: the next sequence number becomes the item's \<open>ID\<close> (written through
  the pointer, so the caller sees it), and the encoded item is put under \<open>itob(int(item.T))\<close>.
\<close>

definition database_store :: "DatabaseItem \<Rightarrow> Bucket \<Rightarrow> DatabaseItem \<times> Bucket" where
  "database_store item b =
     (let ID' = sequence b + 1;
          item' = item\<lparr>ID := ID'\<rparr>;
          encoded = json_Marshal item'
      in (item', b\<lparr>sequence := ID', pairs := Put (itob (T item')) encoded (pairs b)\<rparr>))"

text \<open>
  \<open>database_last_5\<close>, first loop: from \<open>cursor.Last()\<close> backwards with \<open>cursor.Prev()\<close>,
  counting every visited pair in \<open>n\<close> and stopping at \<open>n >= 7\<close>; a value that does not
  decode is skipped.
\<close>

fun last_5_scan :: "nat \<Rightarrow> (8 word list \<times> json) list \<Rightarrow> DatabaseItem list \<Rightarrow> DatabaseItem list" where
  "last_5_scan n [] tmp = tmp"
| "last_5_scan n ((k, v) # ps) tmp =
     (if n \<ge> 7 then tmp
      else (case v of
              None \<Rightarrow> last_5_scan (n + 1) ps tmp
            | Some item \<Rightarrow> last_5_scan (n + 1) ps (tmp @ [item])))"

text \<open>
  Second loop: \<open>for i := len(tmp) - 1; i > 0; i-- { rt = append(rt, tmp[i]) }\<close>.
  The argument is \<open>i\<close>; with an empty \<open>tmp\<close> Go starts at \<open>-1\<close> and does nothing, as
  the start value \<open>0\<close> does here.
\<close>

fun last_5_copy :: "nat \<Rightarrow> DatabaseItem list \<Rightarrow> DatabaseItem list \<Rightarrow> DatabaseItem list" where
  "last_5_copy 0 tmp rt = rt"
| "last_5_copy (Suc i) tmp rt = last_5_copy i tmp (rt @ [tmp ! Suc i])"

definition database_last_5 :: "Bucket \<Rightarrow> DatabaseItem list" where
  "database_last_5 b =
     (let tmp = last_5_scan 0 (rev (pairs b)) []
      in last_5_copy (length tmp - 1) tmp [])"

text \<open>
  \<open>strconv.Atoi\<close>: an optional sign and decimal digits; an error (\<open>None\<close>) for anything
  else and for a value outside the 64-bit signed range.
\<close>

definition is_digit :: "char \<Rightarrow> bool" where
  "is_digit c = (48 \<le> (of_char c :: int) \<and> (of_char c :: int) \<le> 57)"

fun parse_digits :: "int \<Rightarrow> string \<Rightarrow> int option" where
  "parse_digits acc [] = Some acc"
| "parse_digits acc (c # cs) =
     (if is_digit c then parse_digits (acc * 10 + (of_char c - 48)) cs else None)"

definition strconv_Atoi :: "string \<Rightarrow> 64 word option" where
  "strconv_Atoi s =
     (case s of
        [] \<Rightarrow> None
      | c # cs \<Rightarrow>
          if c = CHR ''-'' then
            (if cs = [] then None
             else (case parse_digits 0 cs of
                     None \<Rightarrow> None
                   | Some n \<Rightarrow> if n \<le> 2 ^ 63 then Some (- word_of_int n) else None))
          else
            (let ds = (if c = CHR ''+'' then cs else s)
             in if ds = [] then None
                else (case parse_digits 0 ds of
                        None \<Rightarrow> None
                      | Some n \<Rightarrow> if n < 2 ^ 63 then Some (word_of_int n) else None)))"

text \<open>
  \<open>database_get\<close>, the loop: from \<open>cursor.Seek(start)\<close> forwards; it returns as soon as
  \<open>bytes.Compare(k, end) < 0\<close>, skips a value that does not decode, and appends the rest.
\<close>

fun get_scan :: "8 word list \<Rightarrow> (8 word list \<times> json) list \<Rightarrow> DatabaseItem list \<Rightarrow> DatabaseItem list" where
  "get_scan end [] rt = rt"
| "get_scan end ((k, v) # ps) rt =
     (if bytes_Compare k end < 0 then rt
      else (case v of
              None \<Rightarrow> get_scan end ps rt
            | Some item \<Rightarrow> get_scan end ps (rt @ [item])))"

definition database_get :: "string \<Rightarrow> string \<Rightarrow> Bucket \<Rightarrow> DatabaseItem list" where
  "database_get s l b =
     (case strconv_Atoi s of
        None \<Rightarrow> []
      | Some si \<Rightarrow>
          (case strconv_Atoi l of
             None \<Rightarrow> []
           | Some li \<Rightarrow>
               (let start = itob (si * 1000000000);
                    end = itob (si + li * 60 * 1000000000)
                in get_scan end (Seek start (pairs b)) [])))"

text \<open>
  \<open>database_worker\<close>. \<open>time.Nanosecond\<close> is the constant 1. One pass of the endless loop
  computes \<open>current\<close> and runs one update transaction; the blob directory \<open>./files\<close> is
  the set of the file names in it, and \<open>os.RemoveAll\<close> takes the named file out (the names
  that the fetch loops give are plain file names).
\<close>

definition time_Nanosecond :: "64 word" where
  "time_Nanosecond = 1"

definition worker_current :: "64 word \<Rightarrow> 64 word \<Rightarrow> 64 word" where
  "worker_current now flagTail = now - flagTail * 60 * 60 * time_Nanosecond"

text \<open>
  The loop of the transaction, from \<open>cursor.First()\<close>: it returns \<open>nil\<close> at the first key
  with \<open>bytes.Compare(k, itob(int(current))) < 0\<close>; a value that does not decode makes it
  return the error, and bbolt rolls the transaction back (\<open>None\<close> for the pairs; the files
  already removed stay removed); otherwise the file and the key are deleted.
\<close>

fun worker_scan ::
  "8 word list \<Rightarrow> (8 word list \<times> json) list \<Rightarrow> (8 word list \<times> json) list \<times> string set
     \<Rightarrow> (8 word list \<times> json) list option \<times> string set" where
  "worker_scan cur [] (kept, files) = (Some kept, files)"
| "worker_scan cur ((k, v) # ps) (kept, files) =
     (if bytes_Compare k cur < 0 then (Some kept, files)
      else (case v of
              None \<Rightarrow> (None, files)
            | Some item \<Rightarrow> worker_scan cur ps (Delete k kept, files - {Name item})))"

definition database_worker_tx :: "64 word \<Rightarrow> Bucket \<times> string set \<Rightarrow> Bucket \<times> string set" where
  "database_worker_tx current st =
     (let b = fst st
      in (case worker_scan (itob current) (pairs b) (pairs b, snd st) of
            (Some kept, files) \<Rightarrow> (b\<lparr>pairs := kept\<rparr>, files)
          | (None, files) \<Rightarrow> (b, files)))"

definition database_worker_pass :: "64 word \<Rightarrow> 64 word \<Rightarrow> Bucket \<times> string set \<Rightarrow> Bucket \<times> string set" where
  "database_worker_pass now flagTail st = database_worker_tx (worker_current now flagTail) st"


section \<open>The manifest handlers\<close>

text \<open>
  \<open>fmt.Sprintf("%d", n)\<close> for an unsigned number and \<open>"%v"\<close> for an \<open>int64\<close>: the decimal
  digits. \<open>"%f"\<close> of a \<open>float64\<close> is a parameter \<open>fmt_f\<close> of the handlers.
\<close>

definition digit_char :: "nat \<Rightarrow> char" where
  "digit_char n = ''0123456789'' ! n"

function fmt_d :: "nat \<Rightarrow> string" where
  "fmt_d n = (if n < 10 then [digit_char n] else fmt_d (n div 10) @ [digit_char (n mod 10)])"
  by pat_completeness auto
termination
  by (relation "measure (\<lambda>n. n)") auto

declare fmt_d.simps [simp del]

definition fmt_v :: "64 word \<Rightarrow> string" where
  "fmt_v t = (if sint t < 0 then CHR ''-'' # fmt_d (nat (- sint t)) else fmt_d (nat (sint t)))"

definition nl :: string where
  "nl = [CHR 0x0A]"

text \<open>A response: the status code and the body. \<open>http.Error\<close> writes the message and a newline.\<close>

datatype response = Response (status: nat) (body: string)

definition http_Error :: "string \<Rightarrow> nat \<Rightarrow> response" where
  "http_Error msg code = Response code (msg @ nl)"

text \<open>\<open>varz[key]\<close> on the route variables: the empty string for a missing key.\<close>

definition vars_get :: "(string \<rightharpoonup> string) \<Rightarrow> string \<Rightarrow> string" where
  "vars_get varz key = (case varz key of None \<Rightarrow> [] | Some v \<Rightarrow> v)"

text \<open>The loop that both handlers run over the items: two lines are appended for each.\<close>

definition write_items :: "(float64 \<Rightarrow> string) \<Rightarrow> string \<Rightarrow> DatabaseItem list \<Rightarrow> string" where
  "write_items fmt_f out items =
     foldl (\<lambda>out item. out @ (''#EXTINF:'' @ fmt_f (Len item) @ nl) @ (Name item @ nl)) out items"

definition handleVODRequest ::
  "(float64 \<Rightarrow> string) \<Rightarrow> string \<Rightarrow> (string \<rightharpoonup> string) \<Rightarrow> Bucket \<Rightarrow> response" where
  "handleVODRequest fmt_f utc varz0 b =
     (let varz = (if utc \<noteq> [] then varz0(''start'' \<mapsto> utc, ''limit'' \<mapsto> ''300'') else varz0);
          out = ''#EXTM3U'' @ nl @ ''#EXT-X-PLAYLIST-TYPE:VOD'' @ nl @ ''#EXT-X-TARGETDURATION:20'' @ nl
                @ ''#EXT-X-VERSION:4'' @ nl @ ''#EXT-X-MEDIA-SEQUENCE:0'' @ nl;
          items = database_get (vars_get varz ''start'') (vars_get varz ''limit'') b;
          out = write_items fmt_f out items;
          out = out @ ''#EXT-X-ENDLIST'' @ nl
      in Response 200 out)"

text \<open>
  \<open>handleLiveStream\<close>: \<open>utc\<close> is the query parameter of that name (empty when absent),
  \<open>varz0\<close> the route variables, \<open>b\<close> the bucket at the time of the request.
\<close>

definition handleLiveStream ::
  "(float64 \<Rightarrow> string) \<Rightarrow> string \<Rightarrow> (string \<rightharpoonup> string) \<Rightarrow> Bucket \<Rightarrow> response" where
  "handleLiveStream fmt_f utc varz0 b =
     (if utc \<noteq> [] then handleVODRequest fmt_f utc varz0 b
      else
        (let out = ''#EXTM3U'' @ nl @ ''#EXT-X-TARGETDURATION:2'' @ nl @ ''#EXT-X-VERSION:4'' @ nl;
             items = database_last_5 b
         in if int (length items) \<le> 0 then http_Error ''No segments available'' 404
            else
              (let last = items ! (length items - 1);
                   out = out @ (''#EXT-X-MEDIA-SEQUENCE:'' @ fmt_d (unat (ID last)) @ nl);
                   out = write_items fmt_f out items
               in Response 200 out)))"


section \<open>The fetch loops\<close>

text \<open>
  A URL is its text up to the query and the query (\<open>RawQuery\<close>). Resolving a reference
  against a URL (\<open>(*URL).Parse\<close>), the network, the playlist decoder, the file system and
  the clock are the environment: \<open>resolve\<close> gives \<open>None\<close> for a parse error,
  \<open>http_get n u\<close> is the body that the request number \<open>n\<close> gets from \<open>u\<close> (\<open>None\<close> where
  \<open>fetch\<close> returns \<open>nil\<close>), \<open>m3u8_Decode\<close> gives \<open>None\<close> for an error, \<open>WriteFile_ok\<close>
  says whether writing the named file succeeds, and \<open>UnixNano n\<close> is the reading number
  \<open>n\<close> of \<open>time.Now().UnixNano()\<close>.
\<close>

record url =
  loc :: string
  RawQuery :: string

definition url_String :: "url \<Rightarrow> string" where
  "url_String u = loc u @ (if RawQuery u = [] then [] else CHR ''?'' # RawQuery u)"

datatype Variant = Variant (Variant_URI: string)

datatype MediaSegment = MediaSegment (Segment_URI: string) (Duration: float64)

datatype playlist = MASTER "Variant list" | MEDIA "MediaSegment option list"

record env =
  resolve :: "url \<Rightarrow> string \<Rightarrow> url option"
  http_get :: "nat \<Rightarrow> string \<Rightarrow> string option"
  m3u8_Decode :: "string \<Rightarrow> playlist option"
  WriteFile_ok :: "string \<Rightarrow> bool"
  UnixNano :: "nat \<Rightarrow> 64 word"

text \<open>
  The state of the recorder: the loop variable \<open>mainurl\<close>, the cache, the bucket, the
  names of the files in \<open>./files\<close>, the URLs requested so far, the number of clock
  readings, the \<open>running\<close> flag, and whether the goroutine has panicked (it then stops).
\<close>

record state =
  mainurl :: url
  fifo :: FIFOCache
  db :: Bucket
  blobs :: "string set"
  requests :: "string list"
  clock :: nat
  running :: bool
  panicked :: bool

text \<open>
  The body of the loop of \<open>processSegments\<close> for a segment that is not \<open>nil\<close>. A
  reference that does not parse leaves \<open>fetchurl\<close> nil, and the assignment to its
  \<open>RawQuery\<close> panics. The item is stored only after the download and the write of the
  file have succeeded. (The post-processor, called last in a goroutine of its own, does not
  touch the store.)
\<close>

definition processSegment :: "env \<Rightarrow> MediaSegment \<Rightarrow> url \<Rightarrow> state \<Rightarrow> state" where
  "processSegment env segment baseURL st =
     (case resolve env baseURL (Segment_URI segment) of
        None \<Rightarrow> st\<lparr>panicked := True\<rparr>
      | Some parsed \<Rightarrow>
          (let fetchurl = parsed\<lparr>RawQuery := RawQuery baseURL\<rparr>
           in (case Set (url_String fetchurl) (fifo st) of
                 None \<Rightarrow> st\<lparr>panicked := True\<rparr>
               | Some (admitted, c) \<Rightarrow>
                   if \<not> admitted then st\<lparr>fifo := c\<rparr>
                   else
                     (let currenttime = UnixNano env (clock st);
                          item = \<lparr>ID = 0, Name = fmt_v currenttime @ ''.ts'',
                                  Len = Duration segment, T = currenttime\<rparr>;
                          segmentData = http_get env (length (requests st)) (url_String fetchurl);
                          st1 = st\<lparr>fifo := c, clock := clock st + 1,
                                   requests := requests st @ [url_String fetchurl]\<rparr>
                      in (case segmentData of
                            None \<Rightarrow> st1
                          | Some data \<Rightarrow>
                              if \<not> WriteFile_ok env (Name item) then st1
                              else st1\<lparr>blobs := insert (Name item) (blobs st1),
                                       db := snd (database_store item (db st1))\<rparr>)))))"

text \<open>\<open>processSegments\<close>: the loop over the segments; a \<open>nil\<close> segment is skipped.\<close>

fun processSegments :: "env \<Rightarrow> MediaSegment option list \<Rightarrow> url \<Rightarrow> state \<Rightarrow> state" where
  "processSegments env [] baseURL st = st"
| "processSegments env (None # segs) baseURL st = processSegments env segs baseURL st"
| "processSegments env (Some segment # segs) baseURL st =
     (let st' = processSegment env segment baseURL st
      in if panicked st' then st' else processSegments env segs baseURL st')"

text \<open>
  One pass of the body of \<open>fetchLoop\<close>, from the label \<open>start_at\<close>: it ends with
  \<open>goto start_at\<close>, or with \<open>continue\<close> or the end of the body (both after a sleep), where the
  loop condition \<open>p.running\<close> is read again. A variant reference that does not parse
  makes \<open>mainurl\<close> nil, and \<open>mainurl.String()\<close> in the next statement panics.
\<close>

datatype next_step = Goto_start_at | Continue

definition fetchLoop_body :: "env \<Rightarrow> state \<Rightarrow> state \<times> next_step" where
  "fetchLoop_body env st0 =
     (let b = http_get env (length (requests st0)) (url_String (mainurl st0));
          st = st0\<lparr>requests := requests st0 @ [url_String (mainurl st0)]\<rparr>
      in (case b of
            None \<Rightarrow> (st, Continue)
          | Some bytes \<Rightarrow>
              (case m3u8_Decode env bytes of
                 None \<Rightarrow> (st, Continue)
               | Some (MASTER variants) \<Rightarrow>
                   (case variants of
                      [] \<Rightarrow> (st, Continue)
                    | variant # _ \<Rightarrow>
                        (case resolve env (mainurl st) (Variant_URI variant) of
                           None \<Rightarrow> (st\<lparr>panicked := True\<rparr>, Continue)
                         | Some u \<Rightarrow> (st\<lparr>mainurl := u\<rparr>, Goto_start_at)))
               | Some (MEDIA segs) \<Rightarrow> (processSegments env segs (mainurl st) st, Continue))))"

text \<open>
  The loop runs for the life of the process; \<open>fetchLoop n\<close> is the state after at most \<open>n\<close>
  passes. \<open>jumped\<close> says that the pass is entered by \<open>goto start_at\<close>, past the loop
  condition.
\<close>

fun fetchLoop :: "nat \<Rightarrow> env \<Rightarrow> bool \<Rightarrow> state \<Rightarrow> state" where
  "fetchLoop 0 env jumped st = st"
| "fetchLoop (Suc n) env jumped st =
     (if panicked st then st
      else if \<not> jumped \<and> \<not> running st then st
      else (case fetchLoop_body env st of
              (st', Goto_start_at) \<Rightarrow> fetchLoop n env True st'
            | (st', Continue) \<Rightarrow> fetchLoop n env False st'))"

text \<open>
  The older \<open>fetcher\<close> works on the global cache. The body of its loop over the segments
  stores the item as soon as the URL is admitted, before the download.
\<close>

definition fetcher_segment :: "env \<Rightarrow> MediaSegment \<Rightarrow> url \<Rightarrow> state \<Rightarrow> state" where
  "fetcher_segment env segment main_url st =
     (case resolve env main_url (Segment_URI segment) of
        None \<Rightarrow> st\<lparr>panicked := True\<rparr>
      | Some parsed \<Rightarrow>
          (let fetchurl = parsed\<lparr>RawQuery := RawQuery main_url\<rparr>
           in (case Set (url_String fetchurl) (fifo st) of
                 None \<Rightarrow> st\<lparr>panicked := True\<rparr>
               | Some (admitted, c) \<Rightarrow>
                   if \<not> admitted then st\<lparr>fifo := c\<rparr>
                   else
                     (let currenttime = UnixNano env (clock st);
                          item = \<lparr>ID = 0, Name = fmt_v currenttime @ ''.ts'',
                                  Len = Duration segment, T = currenttime\<rparr>;
                          stored = database_store item (db st);
                          b = http_get env (length (requests st)) (url_String fetchurl);
                          st1 = st\<lparr>fifo := c, clock := clock st + 1, db := snd stored,
                                   requests := requests st @ [url_String fetchurl]\<rparr>
                      in (case b of
                            None \<Rightarrow> st1
                          | Some data \<Rightarrow>
                              if \<not> WriteFile_ok env (Name (fst stored)) then st1
                              else st1\<lparr>blobs := insert (Name (fst stored)) (blobs st1)\<rparr>)))))"

fun fetcher_segments :: "env \<Rightarrow> MediaSegment option list \<Rightarrow> url \<Rightarrow> state \<Rightarrow> state" where
  "fetcher_segments env [] main_url st = st"
| "fetcher_segments env (None # segs) main_url st = fetcher_segments env segs main_url st"
| "fetcher_segments env (Some segment # segs) main_url st =
     (let st' = fetcher_segment env segment main_url st
      in if panicked st' then st' else fetcher_segments env segs main_url st')"

text \<open>
  One pass of the body of \<open>fetcher\<close>. The result of \<open>fetch\<close> goes to the decoder without
  a check; a \<open>nil\<close> result is the empty buffer.
\<close>

definition fetcher_body :: "env \<Rightarrow> state \<Rightarrow> state \<times> next_step" where
  "fetcher_body env st0 =
     (let b = http_get env (length (requests st0)) (url_String (mainurl st0));
          st = st0\<lparr>requests := requests st0 @ [url_String (mainurl st0)]\<rparr>
      in (case m3u8_Decode env (case b of None \<Rightarrow> [] | Some bytes \<Rightarrow> bytes) of
            None \<Rightarrow> (st, Continue)
          | Some (MASTER variants) \<Rightarrow>
              (case variants of
                 [] \<Rightarrow> (st, Continue)
               | variant # _ \<Rightarrow>
                   (case resolve env (mainurl st) (Variant_URI variant) of
                      None \<Rightarrow> (st\<lparr>panicked := True\<rparr>, Continue)
                    | Some u \<Rightarrow> (st\<lparr>mainurl := u\<rparr>, Goto_start_at)))
          | Some (MEDIA segs) \<Rightarrow> (fetcher_segments env segs (mainurl st) st, Continue)))"

fun fetcher :: "nat \<Rightarrow> env \<Rightarrow> state \<Rightarrow> state" where
  "fetcher 0 env st = st"
| "fetcher (Suc n) env st =
     (if panicked st then st else fetcher n env (fst (fetcher_body env st)))"


section \<open>Auxiliary notions for the proofs\<close>

text \<open>
  The map and the list of a cache hold the same URLs, each once; every cache made by
  \<open>NewFIFOCache\<close> and changed by \<open>Set\<close> and \<open>Clear\<close> is so.
\<close>

definition cache_inv :: "FIFOCache \<Rightarrow> bool" where
  "cache_inv c = (cache c = set (list c) \<and> distinct (list c))"

definition cache_ok :: "int \<Rightarrow> FIFOCache \<Rightarrow> bool" where
  "cache_ok K c = (cache_inv c \<and> maxSize c = K \<and> int (length (list c)) \<le> K)"

text \<open>What the eviction loop leaves: the \<open>maxSize\<close> newest URLs.\<close>

definition trim :: "FIFOCache \<Rightarrow> FIFOCache" where
  "trim c = c\<lparr>cache := set (take (nat (maxSize c)) (list c)),
              list := take (nat (maxSize c)) (list c)\<rparr>"

definition push :: "string \<Rightarrow> FIFOCache \<Rightarrow> FIFOCache" where
  "push url c = c\<lparr>cache := insert url (cache c), list := url # list c\<rparr>"

text \<open>The items of the pairs whose value decodes, in the order of the pairs.\<close>

definition decoded :: "(8 word list \<times> json) list \<Rightarrow> DatabaseItem list" where
  "decoded ps = List.map_filter snd ps"

text \<open>
  The keys of a bucket ascend strictly (bbolt keeps them so), and in a bucket written by
  \<open>database_store\<close> every item sits under the key made from its \<open>T\<close>.
\<close>

definition ascending :: "(8 word list \<times> json) list \<Rightarrow> bool" where
  "ascending ps = sorted_wrt (<) (map fst ps)"

definition keyed :: "(8 word list \<times> json) list \<Rightarrow> bool" where
  "keyed ps = list_all (\<lambda>p. case snd p of None \<Rightarrow> True | Some item \<Rightarrow> fst p = itob (T item)) ps"

text \<open>
  A bucket as \<open>database_store\<close> writes it; the \<open>ID\<close>s are compared as unsigned numbers.
\<close>

definition store_inv :: "Bucket \<Rightarrow> bool" where
  "store_inv b = (ascending (pairs b) \<and> keyed (pairs b)
                  \<and> list_all (\<lambda>item. ID item \<le> sequence b) (decoded (pairs b)))"

text \<open>
  The stores of the examples. \<open>segment name t\<close> is an item as the fetch loop makes it, of
  2 seconds; \<open>append_all\<close> stores a list of items one after the other.
\<close>

definition segment :: "string \<Rightarrow> 64 word \<Rightarrow> DatabaseItem" where
  "segment name t = \<lparr>ID = 0, Name = name, Len = Finite 2, T = t\<rparr>"

definition append_all :: "DatabaseItem list \<Rightarrow> Bucket \<Rightarrow> Bucket" where
  "append_all items b = foldl (\<lambda>b item. snd (database_store item b)) b items"

definition store_1 :: Bucket where
  "store_1 = append_all [segment ''1700000000000000000.ts'' 1700000000000000000] empty_bucket"

definition store_3 :: Bucket where
  "store_3 = append_all
     [segment ''1700000000000000000.ts'' 1700000000000000000,
      segment ''1700000001000000000.ts'' 1700000001000000000,
      segment ''1700000002000000000.ts'' 1700000002000000000] empty_bucket"

definition store_late :: Bucket where
  "store_late = append_all
     [segment ''1700000000000000000.ts'' 1700000000000000000,
      segment ''1700000001000000000.ts'' 1700000001000000000,
      segment ''1700000120000000000.ts'' 1700000120000000000] empty_bucket"

definition files_3 :: "string set" where
  "files_3 = {''1700000000000000000.ts'', ''1700000001000000000.ts'', ''1700000002000000000.ts''}"

text \<open>
  An origin for the examples: a master playlist with the variants \<open>low.m3u8\<close> and
  \<open>high.m3u8\<close>; the media playlist \<open>low.m3u8\<close> lists the segment \<open>seg7.ts\<close>, whose
  download fails. The bodies of the documents are named by short strings, which the
  decoder of the example maps to their content.
\<close>

definition master_url :: url where
  "master_url = \<lparr>loc = ''http://origin.example/live/master.m3u8'', RawQuery = ''token=abc''\<rparr>"

definition low_url :: url where
  "low_url = \<lparr>loc = ''http://origin.example/live/low.m3u8'', RawQuery = []\<rparr>"

definition high_url :: url where
  "high_url = \<lparr>loc = ''http://origin.example/live/high.m3u8'', RawQuery = []\<rparr>"

definition segment_url :: url where
  "segment_url = \<lparr>loc = ''http://origin.example/live/seg7.ts'', RawQuery = []\<rparr>"

definition origin :: env where
  "origin =
     \<lparr>resolve = (\<lambda>u ref.
         if u = master_url \<and> ref = ''low.m3u8'' then Some low_url
         else if u = master_url \<and> ref = ''high.m3u8'' then Some high_url
         else if u = low_url \<and> ref = ''seg7.ts'' then Some segment_url
         else None),
      http_get = (\<lambda>n u.
         if u = url_String master_url then Some ''master''
         else if u = url_String low_url then Some ''low''
         else if u = url_String high_url then Some ''high''
         else None),
      m3u8_Decode = (\<lambda>bytes.
         if bytes = ''master'' then Some (MASTER [Variant ''low.m3u8'', Variant ''high.m3u8''])
         else if bytes = ''low'' then Some (MEDIA [Some (MediaSegment ''seg7.ts'' (Finite 2))])
         else if bytes = ''high'' then Some (MEDIA [])
         else None),
      WriteFile_ok = (\<lambda>name. True),
      UnixNano = (\<lambda>n. 1700000000000000000 + 1000000000 * word_of_nat n)\<rparr>"

definition start_state :: "url \<Rightarrow> int \<Rightarrow> state" where
  "start_state u capacity =
     \<lparr>mainurl = u, fifo = NewFIFOCache capacity, db = empty_bucket, blobs = {}, requests = [],
      clock = 0, running = True, panicked = False\<rparr>"

section \<open>The deduplication cache: proofs\<close>

lemma set_minus_last: "distinct l \<Longrightarrow> l \<noteq> [] \<Longrightarrow> set l - {last l} = set (butlast l)"
proof -
  assume d: "distinct l" and ne: "l \<noteq> []"
  from ne obtain xs x where l: "l = xs @ [x]" by (cases l rule: rev_cases) auto
  with d show ?thesis by auto
qed

lemma evict_step:
  "int (length (list c)) > maxSize c \<Longrightarrow> list c \<noteq> [] \<Longrightarrow>
   evict c = evict (c\<lparr>cache := cache c - {last (list c)}, list := butlast (list c)\<rparr>)"
  by (subst evict.simps) (simp split: list.splits)

lemma evict_stop: "\<not> int (length (list c)) > maxSize c \<Longrightarrow> evict c = Some c"
  by (subst evict.simps) simp

lemma trim_stop: "cache_inv c \<Longrightarrow> \<not> int (length (list c)) > maxSize c \<Longrightarrow> trim c = c"
proof -
  assume a: "cache_inv c" and b: "\<not> int (length (list c)) > maxSize c"
  have "take (nat (maxSize c)) (list c) = list c" using b by simp
  moreover have "set (list c) = cache c" using a by (simp add: cache_inv_def)
  ultimately show ?thesis by (simp add: trim_def)
qed

lemma trim_step:
  assumes "int (length (list c)) > maxSize c" "0 \<le> maxSize c"
  shows "trim (c\<lparr>cache := cache c - {last (list c)}, list := butlast (list c)\<rparr>) = trim c"
proof -
  have "take (nat (maxSize c)) (butlast (list c)) = take (nat (maxSize c)) (list c)"
    using assms by (intro take_butlast) linarith
  then show ?thesis by (simp add: trim_def)
qed

text \<open>With a capacity that is not negative the eviction loop ends without a panic.\<close>

lemma evict_trim:
  "cache_inv c \<Longrightarrow> 0 \<le> maxSize c \<Longrightarrow> evict c = Some (trim c)"
proof (induction c rule: evict.induct)
  case (1 c)
  show ?case
  proof (cases "int (length (list c)) > maxSize c")
    case False
    with "1.prems" show ?thesis
      by (simp add: evict_stop trim_stop)
  next
    case True
    with "1.prems" have ne: "list c \<noteq> []" by auto
    then obtain x xs where xs: "list c = x # xs" by (cases "list c") auto
    let ?c' = "c\<lparr>cache := cache c - {last (list c)}, list := butlast (list c)\<rparr>"
    have inv': "cache_inv ?c'" using "1.prems" ne
      by (simp add: cache_inv_def set_minus_last distinct_butlast)
    have m: "0 \<le> maxSize ?c'" using "1.prems" by simp
    have ih: "evict ?c' = Some (trim ?c')"
      by (rule "1.IH"[OF True xs inv' m])
    show ?thesis
      unfolding evict_step[OF True ne] ih trim_step[OF True "1.prems"(2)] ..
  qed
qed

lemma cache_inv_trim: "cache_inv c \<Longrightarrow> cache_inv (trim c)"
  by (simp add: cache_inv_def trim_def)

lemma maxSize_trim: "maxSize (trim c) = maxSize c"
  by (simp add: trim_def)

lemma length_trim: "0 \<le> maxSize c \<Longrightarrow> int (length (list (trim c))) \<le> maxSize c"
  by (simp add: trim_def)

lemma cache_inv_push: "cache_inv c \<Longrightarrow> url \<notin> cache c \<Longrightarrow> cache_inv (push url c)"
  by (simp add: cache_inv_def push_def)

lemma Set_present: "url \<in> cache c \<Longrightarrow> Set url c = Some (False, c)"
  by (simp add: Set_def)

lemma Set_absent:
  assumes "cache_inv c" "0 \<le> maxSize c" "url \<notin> cache c"
  shows "Set url c = Some (True, trim (push url c))"
proof -
  have "evict (push url c) = Some (trim (push url c))"
    using assms by (intro evict_trim cache_inv_push) (simp_all add: push_def)
  then show ?thesis using assms(3) by (simp add: Set_def push_def)
qed

text \<open>The URL just admitted is still in the cache exactly when the capacity is at least 1.\<close>

lemma mem_trim_push: "url \<in> cache (trim (push url c)) \<longleftrightarrow> 1 \<le> maxSize c"
proof (cases "1 \<le> maxSize c")
  case True
  then obtain k where "nat (maxSize c) = Suc k" by (cases "nat (maxSize c)") auto
  then show ?thesis using True by (simp add: trim_def push_def)
next
  case False
  then have "nat (maxSize c) = 0" by simp
  then show ?thesis using False by (simp add: trim_def push_def)
qed

lemma cache_ok_New: "0 \<le> K \<Longrightarrow> cache_ok K (NewFIFOCache K)"
  by (simp add: cache_ok_def cache_inv_def NewFIFOCache_def)

lemma cache_ok_Clear: "0 \<le> K \<Longrightarrow> cache_ok K c \<Longrightarrow> cache_ok K (Clear c)"
  by (simp add: cache_ok_def cache_inv_def Clear_def)

lemma cache_ok_Set:
  assumes "0 \<le> K" "cache_ok K c"
  shows "\<exists>r c'. Set url c = Some (r, c') \<and> cache_ok K c' \<and> (r \<longleftrightarrow> url \<notin> cache c)"
proof (cases "url \<in> cache c")
  case True
  then have "Set url c = Some (False, c)" by (rule Set_present)
  with True assms(2) show ?thesis by blast
next
  case False
  have inv: "cache_inv c" and m: "maxSize c = K" using assms(2) by (simp_all add: cache_ok_def)
  have s: "Set url c = Some (True, trim (push url c))"
    using inv m assms(1) False by (intro Set_absent) simp_all
  have "cache_inv (trim (push url c))"
    using inv False by (intro cache_inv_trim cache_inv_push)
  moreover have "maxSize (trim (push url c)) = K"
    using m by (simp add: maxSize_trim push_def)
  moreover have "int (length (list (trim (push url c)))) \<le> K"
    using length_trim[of "push url c"] m assms(1) by (simp add: push_def)
  ultimately have "cache_ok K (trim (push url c))" by (simp add: cache_ok_def)
  with s False show ?thesis by blast
qed

lemma Size_le: "cache_ok K c \<Longrightarrow> Size c \<le> K"
proof -
  assume a: "cache_ok K c"
  then have "card (cache c) = length (list c)"
    by (simp add: cache_ok_def cache_inv_def distinct_card)
  with a show ?thesis by (simp add: Size_def cache_ok_def)
qed

lemma cache_ok_zero: "cache_ok 0 c \<Longrightarrow> cache c = {}"
  by (simp add: cache_ok_def cache_inv_def)

lemma run_ops_ok:
  "0 \<le> K \<Longrightarrow> cache_ok K c \<Longrightarrow>
   \<exists>c' rs. run_ops c ops = Some (c', rs) \<and> cache_ok K c' \<and> (K = 0 \<longrightarrow> (\<forall>r\<in>set rs. r))"
proof (induction ops arbitrary: c)
  case Nil
  then show ?case by simp
next
  case (Cons op ops)
  show ?case
  proof (cases op)
    case (OpSet url)
    from cache_ok_Set[OF Cons.prems, of url] obtain r c1 where
      s: "Set url c = Some (r, c1)" and ok: "cache_ok K c1" and r: "r \<longleftrightarrow> url \<notin> cache c"
      by blast
    from Cons.IH[OF Cons.prems(1) ok] obtain c' rs where
      run: "run_ops c1 ops = Some (c', rs)" and ok': "cache_ok K c'"
      and z: "K = 0 \<longrightarrow> (\<forall>r\<in>set rs. r)" by blast
    have "K = 0 \<longrightarrow> r" using r cache_ok_zero Cons.prems(2) by auto
    with s run ok' z OpSet show ?thesis by simp
  next
    case OpClear
    with Cons.IH[OF Cons.prems(1) cache_ok_Clear[OF Cons.prems]] show ?thesis by simp
  qed
qed

text \<open>A negative capacity makes the eviction loop run off the empty list: \<open>Set\<close> panics.\<close>

lemma Set_negative_capacity_panics: "Set ''a'' (NewFIFOCache (- 1)) = None"
  by (simp add: Set_def NewFIFOCache_def evict.simps)

text \<open>
  C8. For a cache made with capacity \<open>K \<ge> 0\<close> and every sequence of \<open>Set\<close> and \<open>Clear\<close>
  calls, no call panics and \<open>Size()\<close> is at most \<open>K\<close> afterwards (so after every prefix of
  the sequence too); with \<open>K = 0\<close> every \<open>Set\<close> returns true.
\<close>

theorem cache_size_bounded:
  "0 \<le> K \<Longrightarrow>
   \<exists>c rs. run_ops (NewFIFOCache K) ops = Some (c, rs) \<and> Size c \<le> K \<and>
     (K = 0 \<longrightarrow> (\<forall>r\<in>set rs. r))"
  using run_ops_ok[OF _ cache_ok_New, of K ops] Size_le by blast

theorem cache_size_bounded_witness:
  "(0::int) \<le> 0 \<and>
   (\<exists>c rs. run_ops (NewFIFOCache 0) [OpSet ''a'', OpSet ''a'', OpClear, OpSet ''b''] = Some (c, rs)
      \<and> Size c \<le> 0 \<and> (\<forall>r\<in>set rs. r))"
  using cache_size_bounded[of 0 "[OpSet ''a'', OpSet ''a'', OpClear, OpSet ''b'']"] by simp


text \<open>
  C7 (as amended). For a cache made with capacity \<open>K \<ge> 0\<close> and after every sequence of calls,
  \<open>Set\<close> returns true exactly when the URL is absent from the cache, and false, leaving the
  cache as it is, when the URL is present. A URL admitted with true is in the cache after
  the call exactly when \<open>K \<ge> 1\<close>: with capacity 0 the eviction loop takes it out again
  before \<open>Set\<close> returns. With capacity 2 the calls \<open>Set("a")\<close>, \<open>Set("b")\<close>, \<open>Set("c")\<close>,
  \<open>Set("a")\<close>, \<open>Set("c")\<close> return true, true, true, true, false; the third evicts \<open>"a"\<close> and
  the fourth evicts \<open>"b"\<close>.
\<close>

theorem Set_admits_iff_absent:
  assumes "0 \<le> K" and "run_ops (NewFIFOCache K) ops = Some (c, rs)"
  shows "(\<exists>r c'. Set url c = Some (r, c') \<and> (r \<longleftrightarrow> url \<notin> cache c) \<and>
           (url \<in> cache c \<longrightarrow> c' = c) \<and>
           (url \<notin> cache c \<longrightarrow> (url \<in> cache c' \<longleftrightarrow> 1 \<le> K)))
       \<and> map_option snd (run_ops (NewFIFOCache 2)
             [OpSet ''a'', OpSet ''b'', OpSet ''c'', OpSet ''a'', OpSet ''c''])
           = Some [True, True, True, True, False]
       \<and> map_option (cache \<circ> fst) (run_ops (NewFIFOCache 2) [OpSet ''a'', OpSet ''b'', OpSet ''c''])
           = Some {''b'', ''c''}
       \<and> map_option (cache \<circ> fst) (run_ops (NewFIFOCache 2)
             [OpSet ''a'', OpSet ''b'', OpSet ''c'', OpSet ''a''])
           = Some {''c'', ''a''}"
proof -
  from run_ops_ok[OF assms(1) cache_ok_New[OF assms(1)], of ops] assms(2)
  have ok: "cache_ok K c" by auto
  have general: "\<exists>r c'. Set url c = Some (r, c') \<and> (r \<longleftrightarrow> url \<notin> cache c) \<and>
           (url \<in> cache c \<longrightarrow> c' = c) \<and>
           (url \<notin> cache c \<longrightarrow> (url \<in> cache c' \<longleftrightarrow> 1 \<le> K))"
  proof (cases "url \<in> cache c")
    case True
    then have "Set url c = Some (False, c)" by (rule Set_present)
    with True show ?thesis by blast
  next
    case False
    have "Set url c = Some (True, trim (push url c))"
      using ok assms(1) False by (intro Set_absent) (simp_all add: cache_ok_def)
    moreover have "url \<in> cache (trim (push url c)) \<longleftrightarrow> 1 \<le> K"
      using mem_trim_push[of url c] ok by (simp add: cache_ok_def)
    ultimately show ?thesis using False by blast
  qed
  have s5: "map_option snd (run_ops (NewFIFOCache 2)
             [OpSet ''a'', OpSet ''b'', OpSet ''c'', OpSet ''a'', OpSet ''c''])
           = Some [True, True, True, True, False]"
    by (simp add: Set_def NewFIFOCache_def evict.simps)
  have s3: "map_option (cache \<circ> fst) (run_ops (NewFIFOCache 2) [OpSet ''a'', OpSet ''b'', OpSet ''c''])
           = Some {''b'', ''c''}"
    by (auto simp: Set_def NewFIFOCache_def evict.simps)
  have s4: "map_option (cache \<circ> fst) (run_ops (NewFIFOCache 2)
             [OpSet ''a'', OpSet ''b'', OpSet ''c'', OpSet ''a''])
           = Some {''c'', ''a''}"
    by (auto simp: Set_def NewFIFOCache_def evict.simps)
  from general s5 s3 s4 show ?thesis by blast
qed

theorem Set_admits_iff_absent_witness:
  "(0::int) \<le> 2
   \<and> run_ops (NewFIFOCache 2) [OpSet ''a'', OpSet ''b'', OpSet ''c'']
       = Some (\<lparr>cache = {''c'', ''b''}, list = [''c'', ''b''], maxSize = 2\<rparr>, [True, True, True])
   \<and> (\<exists>r c'. Set ''a'' \<lparr>cache = {''c'', ''b''}, list = [''c'', ''b''], maxSize = 2\<rparr> = Some (r, c')
         \<and> r \<and> ''a'' \<in> cache c')
   \<and> (\<exists>r c'. Set ''c'' \<lparr>cache = {''c'', ''b''}, list = [''c'', ''b''], maxSize = 2\<rparr> = Some (r, c')
         \<and> \<not> r \<and> c' = \<lparr>cache = {''c'', ''b''}, list = [''c'', ''b''], maxSize = 2\<rparr>)"
proof -
  let ?c = "\<lparr>cache = {''c'', ''b''}, list = [''c'', ''b''], maxSize = 2\<rparr>"
  have run: "run_ops (NewFIFOCache 2) [OpSet ''a'', OpSet ''b'', OpSet ''c'']
       = Some (?c, [True, True, True])"
    by (auto simp: Set_def NewFIFOCache_def evict.simps)
  have k: "(0::int) \<le> 2" by simp
  have absent: "''a'' \<notin> cache ?c" and present: "''c'' \<in> cache ?c" by simp_all
  from Set_admits_iff_absent[OF k run, of "''a''", THEN conjunct1] absent
  have A: "\<exists>r c'. Set ''a'' ?c = Some (r, c') \<and> r \<and> ''a'' \<in> cache c'" by auto
  from Set_admits_iff_absent[OF k run, of "''c''", THEN conjunct1] present
  have C: "\<exists>r c'. Set ''c'' ?c = Some (r, c') \<and> \<not> r \<and> c' = ?c" by auto
  from k run A C show ?thesis by blast
qed

text \<open>
  The claim as stated fails for capacity 0: \<open>Set("a")\<close> on the new cache returns true and the
  cache it leaves is the empty one, so the key is not recorded.
\<close>

theorem Set_capacity_zero_counterexample:
  "Set ''a'' (NewFIFOCache 0) = Some (True, NewFIFOCache 0) \<and> ''a'' \<notin> cache (NewFIFOCache 0)"
  by (simp add: Set_def NewFIFOCache_def evict.simps)


section \<open>The segment store: proofs\<close>


text \<open>A name of ASCII characters only, as the fetch loops make them, is encoded as it is.\<close>

lemma json_string_ascii: "list_all (byte_in 0x00 0x7F) s \<Longrightarrow> json_string s = s"
proof (induction s)
  case Nil
  then show ?case by (simp add: json_string.simps)
next
  case (Cons c cs)
  from Cons.prems have "rune_size (c # cs) = 1" by (simp add: rune_size_def)
  with Cons show ?case by (subst json_string.simps) simp
qed

text \<open>
  Well-formed sequences of two, three and four bytes are kept; a byte that starts none,
  a sequence cut short and an overlong form are replaced byte by byte.
\<close>

lemma json_string_examples:
  "json_string [CHR 0xC3, CHR 0xA9] = [CHR 0xC3, CHR 0xA9]
   \<and> json_string [CHR 0xE2, CHR 0x82, CHR 0xAC] = [CHR 0xE2, CHR 0x82, CHR 0xAC]
   \<and> json_string [CHR 0xF0, CHR 0x9F, CHR 0x98, CHR 0x80] = [CHR 0xF0, CHR 0x9F, CHR 0x98, CHR 0x80]
   \<and> json_string [CHR 0xFF, CHR ''a''] = [CHR 0xEF, CHR 0xBF, CHR 0xBD, CHR ''a'']
   \<and> json_string [CHR 0xC3] = [CHR 0xEF, CHR 0xBF, CHR 0xBD]
   \<and> json_string [CHR 0xC0, CHR 0x80] = [CHR 0xEF, CHR 0xBF, CHR 0xBD, CHR 0xEF, CHR 0xBF, CHR 0xBD]
   \<and> json_string [CHR 0xEF, CHR 0xBF, CHR 0xBD] = [CHR 0xEF, CHR 0xBF, CHR 0xBD]"
  by (simp add: json_string.simps rune_size_def byte_in_def tail_ok_def)

lemma json_Marshal_Some:
  "json_Marshal item = Some x \<Longrightarrow> T x = T item \<and> ID x = ID item"
  by (auto simp: json_Marshal_def split: float64.splits)

lemma json_Marshal_Finite:
  "Len item = Finite x \<Longrightarrow> json_Marshal item = Some (item\<lparr>Name := json_string (Name item)\<rparr>)"
  by (simp add: json_Marshal_def)

lemma bytes_Compare_less: "bytes_Compare a b < 0 \<longleftrightarrow> a < b"
  by (simp add: bytes_Compare_def)

lemma bytes_Compare_eq: "bytes_Compare a b = 0 \<longleftrightarrow> a = b"
  by (simp add: bytes_Compare_def)

lemma decoded_simps:
  "decoded [] = []"
  "decoded ((k, None) # ps) = decoded ps"
  "decoded ((k, Some item) # ps) = item # decoded ps"
  by (simp_all add: decoded_def List.map_filter_simps)

lemma decoded_append: "decoded (ps @ qs) = decoded ps @ decoded qs"
  by (simp add: decoded_def List.map_filter_def)

lemma decoded_rev: "decoded (rev ps) = rev (decoded ps)"
  by (simp add: decoded_def List.map_filter_def rev_map rev_filter)

lemma last_5_scan_eq: "last_5_scan n ps tmp = tmp @ decoded (take (7 - n) ps)"
proof (induction n ps tmp rule: last_5_scan.induct)
  case (1 n tmp)
  then show ?case by (simp add: decoded_simps)
next
  case (2 n k v ps tmp)
  show ?case
  proof (cases "n \<ge> 7")
    case True
    then show ?thesis by (simp add: decoded_simps)
  next
    case False
    then obtain m where m: "7 - n = Suc m" "7 - (n + 1) = m" by (cases "7 - n") auto
    with False 2 show ?thesis by (cases v) (simp_all add: decoded_simps)
  qed
qed

lemma last_5_copy_eq:
  "i \<le> length (tl tmp) \<Longrightarrow> last_5_copy i tmp rt = rt @ rev (take i (tl tmp))"
proof (induction i arbitrary: rt)
  case 0
  then show ?case by simp
next
  case (Suc i)
  then have "tmp ! Suc i = tl tmp ! i" by (cases tmp) auto
  with Suc show ?case by (simp add: take_Suc_conv_app_nth)
qed

lemma database_last_5_rev:
  "database_last_5 b = rev (tl (decoded (take 7 (rev (pairs b)))))"
  by (simp add: database_last_5_def last_5_scan_eq last_5_copy_eq)

lemma database_last_5_eq:
  "database_last_5 b = butlast (decoded (drop (length (pairs b) - 7) (pairs b)))"
proof -
  have "take 7 (rev (pairs b)) = rev (drop (length (pairs b) - 7) (pairs b))"
    by (simp add: take_rev)
  moreover have "rev (tl (rev ys)) = butlast ys" for ys :: "DatabaseItem list"
    using butlast_rev[of "rev ys"] by simp
  ultimately show ?thesis
    by (simp add: database_last_5_rev decoded_rev)
qed

lemma get_scan_eq:
  "get_scan end ps rt = rt @ decoded (takeWhile (\<lambda>p. \<not> fst p < end) ps)"
  by (induction "end" ps rt rule: get_scan.induct)
     (simp_all add: decoded_simps bytes_Compare_less split: option.splits)

lemma store_3_val: "store_3 = \<lparr>sequence = 3,
    pairs =
      [([23, 151, 156, 254, 54, 42, 0, 0],
        Some \<lparr>ID = 1, Name = ''1700000000000000000.ts'', Len = Finite 2, T = 1700000000000000000\<rparr>),
       ([23, 151, 156, 254, 113, 196, 202, 0],
        Some \<lparr>ID = 2, Name = ''1700000001000000000.ts'', Len = Finite 2, T = 1700000001000000000\<rparr>),
       ([23, 151, 156, 254, 173, 95, 148, 0],
        Some \<lparr>ID = 3, Name = ''1700000002000000000.ts'', Len = Finite 2, T = 1700000002000000000\<rparr>)]\<rparr>"
  by (simp add: store_3_def append_all_def database_store_def segment_def empty_bucket_def
      json_Marshal_def json_string_ascii byte_in_def itob_def bytes_Compare_def Let_def)

lemma store_1_val: "store_1 = \<lparr>sequence = 1,
    pairs =
      [([23, 151, 156, 254, 54, 42, 0, 0],
        Some \<lparr>ID = 1, Name = ''1700000000000000000.ts'', Len = Finite 2, T = 1700000000000000000\<rparr>)]\<rparr>"
  by (simp add: store_1_def append_all_def database_store_def segment_def empty_bucket_def
      json_Marshal_def json_string_ascii byte_in_def itob_def bytes_Compare_def Let_def)


lemma store_late_val: "store_late = \<lparr>sequence = 3,
    pairs =
      [([23, 151, 156, 254, 54, 42, 0, 0],
        Some \<lparr>ID = 1, Name = ''1700000000000000000.ts'', Len = Finite 2, T = 1700000000000000000\<rparr>),
       ([23, 151, 156, 254, 113, 196, 202, 0],
        Some \<lparr>ID = 2, Name = ''1700000001000000000.ts'', Len = Finite 2, T = 1700000001000000000\<rparr>),
       ([23, 151, 157, 26, 38, 184, 176, 0],
        Some \<lparr>ID = 3, Name = ''1700000120000000000.ts'', Len = Finite 2, T = 1700000120000000000\<rparr>)]\<rparr>"
  by (simp add: store_late_def append_all_def database_store_def segment_def empty_bucket_def
      json_Marshal_def json_string_ascii byte_in_def itob_def bytes_Compare_def Let_def)

lemma Atoi_1700000000: "strconv_Atoi ''1700000000'' = Some 1700000000"
  by (simp add: strconv_Atoi_def is_digit_def)

lemma Atoi_1: "strconv_Atoi ''1'' = Some 1"
  by (simp add: strconv_Atoi_def is_digit_def)

lemma fmt_d_2: "fmt_d 2 = ''2''"
  by (simp add: fmt_d.simps digit_char_def)

text \<open>
  What \<open>database_get\<close> computes for arguments that parse: the items from the first key
  that is not below \<open>start\<close>, up to the first key below \<open>end\<close>, where \<open>end\<close> is made
  from \<open>si + li*60*1000000000\<close>, with \<open>si\<close> in seconds.
\<close>

lemma database_get_eq:
  "strconv_Atoi s = Some si \<Longrightarrow> strconv_Atoi l = Some li \<Longrightarrow>
   database_get s l b =
     decoded (takeWhile (\<lambda>p. \<not> fst p < itob (si + li * 60 * 1000000000))
                (dropWhile (\<lambda>p. fst p < itob (si * 1000000000)) (pairs b)))"
  by (simp add: database_get_def Seek_def get_scan_eq bytes_Compare_less)

text \<open>
  C1 (the code at a failing input). The store holds segments that arrived at
  1700000000 s, one second later and 120 seconds later. \<open>database_get("1700000000", "1")\<close>
  is asked for the window of one minute from 1700000000 s, which holds the first two; it
  returns all three, the one that arrived 60 seconds after the end of the window too.
\<close>

theorem database_get_beyond_window:
  "map Name (database_get ''1700000000'' ''1'' store_late) =
     [''1700000000000000000.ts'', ''1700000001000000000.ts'', ''1700000120000000000.ts'']
   \<and> map fst (pairs store_late) =
       [itob 1700000000000000000, itob 1700000001000000000, itob 1700000120000000000]
   \<and> \<not> itob 1700000120000000000 < itob (1700000000 * 1000000000 + 1 * 60 * 1000000000)"
  by (simp add: database_get_def Atoi_1700000000 Atoi_1 store_late_val itob_def Seek_def
      bytes_Compare_def)

text \<open>
  C2 (the code at a failing input). After three appends at \<open>T\<close>, \<open>T + 1e9\<close> and
  \<open>T + 2e9\<close> nanoseconds the store holds three items, and \<open>database_last_5\<close> returns two:
  the copying loop stops before index 0 of \<open>tmp\<close>, which is the newest item.
\<close>

theorem database_last_5_skips_newest:
  "map Name (database_last_5 store_3) = [''1700000000000000000.ts'', ''1700000001000000000.ts'']
   \<and> length (decoded (pairs store_3)) = 3"
  by (simp add: database_last_5_eq store_3_val decoded_simps)

text \<open>
  The transaction of the sweeper stops at the first key, if that key is below the cutoff:
  a store whose oldest item has expired is left as it is.
\<close>

lemma worker_scan_expired_head:
  "bytes_Compare k cur < 0 \<Longrightarrow> worker_scan cur ((k, v) # ps) (kept, files) = (Some kept, files)"
  by simp

text \<open>
  If no key is below the cutoff (and every value decodes), the transaction deletes every
  pair it visits, and the files of their items.
\<close>

lemma worker_scan_none_expired:
  "list_all (\<lambda>p. \<not> fst p < cur \<and> snd p \<noteq> None) ps \<Longrightarrow>
   worker_scan cur ps (kept, files) =
     (Some (filter (\<lambda>p. fst p \<notin> fst ` set ps) kept), files - Name ` set (decoded ps))"
proof (induction ps arbitrary: kept files)
  case Nil
  then show ?case by (simp add: decoded_simps)
next
  case (Cons p ps)
  obtain k v where p: "p = (k, v)" by (cases p)
  from Cons.prems obtain item where v: "v = Some item" by (auto simp: p)
  from Cons.prems have rest: "list_all (\<lambda>p. \<not> fst p < cur \<and> snd p \<noteq> None) ps"
    and k: "\<not> k < cur" by (simp_all add: p)
  have f: "filter (\<lambda>p. fst p \<notin> fst ` set ps) (Delete k kept)
         = filter (\<lambda>p. fst p \<notin> fst ` set ((k, v) # ps)) kept"
    by (induction kept) (auto simp: Delete_def)
  show ?case
    using Cons.IH[OF rest, of "Delete k kept" "files - {Name item}"] k f
    by (auto simp: p v decoded_simps bytes_Compare_less)
qed

text \<open>
  C3 (the code at failing inputs). The store holds items at \<open>T\<close>, \<open>T + 1e9\<close> and
  \<open>T + 2e9\<close>. With the cutoff \<open>T + 1.5e9\<close> the items at \<open>T\<close> and \<open>T + 1e9\<close> have keys
  below the cutoff, and the transaction removes nothing. With a cutoff before \<open>T\<close> no key
  is below the cutoff, and the transaction removes all three items and their files.
\<close>

theorem database_worker_inverted:
  "map fst (pairs store_3) =
     [itob 1700000000000000000, itob 1700000001000000000, itob 1700000002000000000]
   \<and> itob 1700000001000000000 < itob 1700000001500000000
   \<and> database_worker_tx 1700000001500000000 (store_3, files_3) = (store_3, files_3)
   \<and> \<not> itob 1700000000000000000 < itob 1600000000000000000
   \<and> database_worker_tx 1600000000000000000 (store_3, files_3) = (store_3\<lparr>pairs := []\<rparr>, {})"
  by (simp add: database_worker_tx_def store_3_val files_3_def itob_def bytes_Compare_def
      Delete_def)

text \<open>
  C4 (the code at a failing input). With \<open>--tail 24\<close> the cutoff is the current time less
  86400 nanoseconds, for every current time; at 1700000000000000000 it is
  1699999999999913600, and not the time 24 hours earlier.
\<close>

theorem worker_current_in_nanoseconds:
  "worker_current now 24 = now - 86400
   \<and> worker_current 1700000000000000000 24 = 1699999999999913600
   \<and> worker_current 1700000000000000000 24 \<noteq> 1700000000000000000 - 24 * 3600 * 1000000000"
  by (simp add: worker_current_def time_Nanosecond_def)




lemma set_keys_Put: "fst ` set (Put k v ps) = insert k (fst ` set ps)"
proof (induction ps)
  case Nil
  then show ?case by simp
next
  case (Cons p ps)
  obtain k' v' where p: "p = (k', v')" by (cases p)
  consider "k < k'" | "k = k'" | "\<not> k < k'" "k \<noteq> k'" by blast
  then show ?case
  proof cases
    case 1
    then show ?thesis by (simp add: p bytes_Compare_less)
  next
    case 2
    then show ?thesis by (simp add: p bytes_Compare_less bytes_Compare_eq)
  next
    case 3
    with Cons.IH show ?thesis
      by (simp add: p bytes_Compare_less bytes_Compare_eq insert_commute)
  qed
qed

lemma ascending_Put: "ascending ps \<Longrightarrow> ascending (Put k v ps)"
proof (induction ps)
  case Nil
  then show ?case by (simp add: ascending_def)
next
  case (Cons p ps)
  obtain k' v' where p: "p = (k', v')" by (cases p)
  from Cons.prems have asc: "ascending ps" and lt: "\<forall>x\<in>fst ` set ps. k' < x"
    by (auto simp: ascending_def p)
  consider "k < k'" | "k = k'" | "k' < k" by (cases k k' rule: linorder_cases) auto
  then show ?case
  proof cases
    case 1
    with Cons.prems lt show ?thesis
      by (auto simp: p bytes_Compare_less bytes_Compare_eq ascending_def)
  next
    case 2
    with Cons.prems show ?thesis by (simp add: p bytes_Compare_less bytes_Compare_eq ascending_def)
  next
    case 3
    have "\<forall>x\<in>fst ` set (Put k v ps). k' < x"
      using lt 3 by (simp add: set_keys_Put)
    with 3 Cons.IH[OF asc] show ?thesis
      by (auto simp: p bytes_Compare_less bytes_Compare_eq ascending_def)
  qed
qed

lemma keyed_Put: "keyed ps \<Longrightarrow> keyed (Put (itob (T item)) (Some item) ps)"
  by (induction ps) (auto simp: keyed_def bytes_Compare_less bytes_Compare_eq)

lemma keyed_Put_None: "keyed ps \<Longrightarrow> keyed (Put k None ps)"
  by (induction ps) (auto simp: keyed_def bytes_Compare_less bytes_Compare_eq)

lemma keyed_Put_encoded: "keyed ps \<Longrightarrow> keyed (Put (itob (T item)) (json_Marshal item) ps)"
proof (cases "json_Marshal item")
  case None
  then show "keyed ps \<Longrightarrow> ?thesis" by (simp add: keyed_Put_None)
next
  case (Some x)
  with json_Marshal_Some[OF Some] keyed_Put[of ps x]
  show "keyed ps \<Longrightarrow> ?thesis" by simp
qed






lemma word_le_succ2: "(s::64 word) \<noteq> - 1 \<Longrightarrow> s \<le> s + 1"
  by (meson inc_less_eq_triv_imp nle_le)



lemma decoded_Put_subset:
  "set (decoded (Put k v ps)) \<subseteq> set_option v \<union> set (decoded ps)"
proof (induction ps)
  case Nil
  then show ?case by (cases v) (simp_all add: decoded_simps)
next
  case (Cons p ps)
  obtain k' v' where p: "p = (k', v')" by (cases p)
  show ?case using Cons.IH
    by (cases v; cases v') (auto simp: p decoded_simps bytes_Compare_less bytes_Compare_eq)
qed

lemma store_inv_database_store:
  assumes inv: "store_inv b" and room: "sequence b \<noteq> - 1"
  shows "store_inv (snd (database_store item b))"
proof -
  let ?item' = "item\<lparr>ID := sequence b + 1\<rparr>"
  let ?ps' = "Put (itob (T item)) (json_Marshal ?item') (pairs b)"
  from inv have asc: "ascending (pairs b)" and kd: "keyed (pairs b)"
    and ids: "list_all (\<lambda>item. ID item \<le> sequence b) (decoded (pairs b))"
    by (simp_all add: store_inv_def)
  have asc': "ascending ?ps'" using asc by (rule ascending_Put)
  have kd': "keyed ?ps'" using keyed_Put_encoded[OF kd, of ?item'] by simp
  have "ID x \<le> sequence b + 1" if "x \<in> set (decoded ?ps')" for x
  proof -
    from that decoded_Put_subset[of "itob (T item)" "json_Marshal ?item'" "pairs b"]
    have "json_Marshal ?item' = Some x \<or> x \<in> set (decoded (pairs b))"
      by (cases "json_Marshal ?item'") auto
    then show ?thesis
    proof
      assume "json_Marshal ?item' = Some x"
      from json_Marshal_Some[OF this] show ?thesis by simp
    next
      assume "x \<in> set (decoded (pairs b))"
      with ids have "ID x \<le> sequence b" by (simp add: list_all_iff)
      with word_le_succ2[OF room] show ?thesis by simp
    qed
  qed
  then have "list_all (\<lambda>item. ID item \<le> sequence b + 1) (decoded ?ps')"
    by (simp add: list_all_iff)
  with asc' kd' show ?thesis
    by (simp add: store_inv_def database_store_def Let_def)
qed





lemma store_inv_empty: "store_inv empty_bucket"
  by (simp add: store_inv_def empty_bucket_def ascending_def keyed_def decoded_simps)

lemma sequence_database_store: "sequence (snd (database_store item b)) = sequence b + 1"
  by (simp add: database_store_def Let_def)

lemma append_all_store_inv:
  "store_inv b \<Longrightarrow> unat (sequence b) + length items < 2 ^ 64 \<Longrightarrow>
   store_inv (append_all items b)
   \<and> unat (sequence (append_all items b)) = unat (sequence b) + length items"
proof (induction items arbitrary: b)
  case Nil
  then show ?case by (simp add: append_all_def)
next
  case (Cons item items)
  let ?b = "snd (database_store item b)"
  from Cons.prems(2) have lt: "unat (sequence b) + unat (1::64 word) < 2 ^ LENGTH(64)" by simp
  then have u: "unat (sequence b + 1) = unat (sequence b) + 1"
    using unat_add_lem[of "sequence b" 1] by simp
  have room: "sequence b \<noteq> - 1"
  proof
    assume "sequence b = - 1"
    with u show False by simp
  qed
  have inv: "store_inv ?b" using store_inv_database_store[OF Cons.prems(1) room] .
  have sq: "unat (sequence ?b) = unat (sequence b) + 1"
    using u by (simp add: sequence_database_store)
  from Cons.IH[OF inv] Cons.prems(2) sq
  have "store_inv (append_all items ?b)
   \<and> unat (sequence (append_all items ?b)) = unat (sequence ?b) + length items" by simp
  with sq show ?case by (simp add: append_all_def)
qed

lemma write_items_eq:
  "write_items fmt_f out items =
     out @ concat (map (\<lambda>item. ''#EXTINF:'' @ fmt_f (Len item) @ nl @ Name item @ nl) items)"
  unfolding write_items_def by (induction items arbitrary: out) simp_all

lemma last_5_subseq: "subseq (database_last_5 b) (decoded (pairs b))"
proof -
  let ?n = "length (pairs b) - 7"
  have "decoded (pairs b) = decoded (take ?n (pairs b)) @ decoded (drop ?n (pairs b))"
    by (metis append_take_drop_id decoded_append)
  moreover have "subseq (butlast (decoded (drop ?n (pairs b)))) (decoded (drop ?n (pairs b)))"
    by (metis append_butlast_last_id butlast.simps(1) list_emb_append2 prefix_order.order_refl
        subseq_order.order_refl subseq_rev_drop_many list_emb_prefix)
  ultimately show ?thesis
    by (simp add: database_last_5_eq list_emb_append2)
qed

text \<open>
  C5 (as amended). Without the \<open>utc\<close> parameter, \<open>handleLiveStream\<close> answers 404 exactly
  when \<open>database_last_5\<close> returns no item. Otherwise it answers 200 with the header, the
  \<open>MEDIA-SEQUENCE\<close> tag set to the \<open>ID\<close> of the last item returned (the newest of them),
  and one \<open>EXTINF\<close> line and one name line for each item returned, in the order returned,
  which is the order of the keys in the bucket.
\<close>

theorem live_manifest:
  "handleLiveStream fmt_f [] varz b =
     (if database_last_5 b = [] then Response 404 (''No segments available'' @ nl)
      else Response 200
             (''#EXTM3U'' @ nl @ ''#EXT-X-TARGETDURATION:2'' @ nl @ ''#EXT-X-VERSION:4'' @ nl
              @ ''#EXT-X-MEDIA-SEQUENCE:'' @ fmt_d (unat (ID (last (database_last_5 b)))) @ nl
              @ concat (map (\<lambda>item. ''#EXTINF:'' @ fmt_f (Len item) @ nl @ Name item @ nl)
                          (database_last_5 b))))
   \<and> subseq (database_last_5 b) (decoded (pairs b))"
proof -
  have "items \<noteq> [] \<Longrightarrow> items ! (length items - 1) = last items" for items :: "DatabaseItem list"
    by (simp add: last_conv_nth)
  then show ?thesis
    by (simp add: handleLiveStream_def http_Error_def write_items_eq Let_def last_5_subseq)
qed

text \<open>
  The claim as stated fails after three appends: the items returned have the \<open>ID\<close>s 1 and
  2, the oldest of them is 1, and the tag is \<open>MEDIA-SEQUENCE:2\<close>. After one append the answer
  is 404 and no manifest.
\<close>

theorem live_manifest_counterexample:
  "map ID (database_last_5 store_3) = [1, 2]
   \<and> handleLiveStream (\<lambda>x. ''2.000000'') [] Map.empty store_3 =
       Response 200
         (''#EXTM3U'' @ nl @ ''#EXT-X-TARGETDURATION:2'' @ nl @ ''#EXT-X-VERSION:4'' @ nl
          @ ''#EXT-X-MEDIA-SEQUENCE:2'' @ nl
          @ ''#EXTINF:2.000000'' @ nl @ ''1700000000000000000.ts'' @ nl
          @ ''#EXTINF:2.000000'' @ nl @ ''1700000001000000000.ts'' @ nl)
   \<and> handleLiveStream (\<lambda>x. ''2.000000'') [] Map.empty store_1 =
       Response 404 (''No segments available'' @ nl)"
  by (simp add: handleLiveStream_def http_Error_def write_items_def Let_def database_last_5_eq
      store_3_val store_1_val decoded_simps fmt_d_2)


section \<open>The fetch loops: proofs\<close>


lemmas origin_defs = origin_def start_state_def url_String_def master_url_def low_url_def
  high_url_def segment_url_def

lemma fmt_v_T0: "fmt_v 1700000000000000000 = ''1700000000000000000''"
  by (simp add: fmt_v_def fmt_d.simps digit_char_def)

text \<open>
  C6 (the code at a failing input). The media playlist lists one segment, and its download
  fails. After one pass of the older \<open>fetcher\<close> the bucket holds an item for the segment
  and \<open>./files\<close> holds no file. After one pass of \<open>fetchLoop\<close> on the same origin the
  bucket is empty.
\<close>

theorem fetcher_stores_before_download:
  "fetcher_body origin (start_state low_url 10) =
  ((start_state low_url 10)\<lparr>
      fifo := \<lparr>cache = {''http://origin.example/live/seg7.ts''},
               list = [''http://origin.example/live/seg7.ts''], maxSize = 10\<rparr>,
      db := \<lparr>sequence = 1, pairs = [(itob 1700000000000000000,
                 Some \<lparr>ID = 1, Name = ''1700000000000000000.ts'', Len = Finite 2, T = 1700000000000000000\<rparr>)]\<rparr>,
      requests := [''http://origin.example/live/low.m3u8'', ''http://origin.example/live/seg7.ts''],
      clock := 1\<rparr>, Continue)
   \<and> http_get origin 1 ''http://origin.example/live/seg7.ts'' = None
   \<and> fetchLoop_body origin (start_state low_url 100) =
  ((start_state low_url 100)\<lparr>
      fifo := \<lparr>cache = {''http://origin.example/live/seg7.ts''},
               list = [''http://origin.example/live/seg7.ts''], maxSize = 100\<rparr>,
      requests := [''http://origin.example/live/low.m3u8'', ''http://origin.example/live/seg7.ts''],
      clock := 1\<rparr>, Continue)"
  by (simp add: fetcher_body_def fetchLoop_body_def fetcher_segment_def processSegment_def
      origin_defs Set_def NewFIFOCache_def evict.simps Let_def fmt_v_T0
      database_store_def json_Marshal_def json_string_ascii byte_in_def empty_bucket_def)

lemma processSegment_requests:
  "prefix (requests st) (requests (processSegment env seg base st))"
  by (auto simp: processSegment_def Let_def split: option.splits)

lemma processSegments_requests:
  "prefix (requests st) (requests (processSegments env segs base st))"
proof (induction env segs base st rule: processSegments.induct)
  case (3 env segment segs baseURL st)
  let ?st' = "processSegment env segment baseURL st"
  show ?case
  proof (cases "panicked ?st'")
    case True
    then show ?thesis by (simp add: processSegment_requests)
  next
    case False
    with "3.IH"[OF refl False] processSegment_requests[of st env segment baseURL]
    show ?thesis by (auto simp: Let_def intro: prefix_order.order_trans)
  qed
qed simp_all

text \<open>
  \<open>processSegments\<close> changes the bucket for a segment only when the URL was admitted by the
  cache, the download gave data and the file was written; the change is one
  \<open>database_store\<close>.
\<close>

lemma processSegment_stores_only_downloaded:
  assumes "db (processSegment env seg base st) \<noteq> db st"
  shows "\<exists>parsed c data.
           resolve env base (Segment_URI seg) = Some parsed
         \<and> Set (url_String (parsed\<lparr>RawQuery := RawQuery base\<rparr>)) (fifo st) = Some (True, c)
         \<and> http_get env (length (requests st)) (url_String (parsed\<lparr>RawQuery := RawQuery base\<rparr>)) = Some data
         \<and> WriteFile_ok env (fmt_v (UnixNano env (clock st)) @ ''.ts'')
         \<and> db (processSegment env seg base st) =
             snd (database_store \<lparr>ID = 0, Name = fmt_v (UnixNano env (clock st)) @ ''.ts'',
                    Len = Duration seg, T = UnixNano env (clock st)\<rparr> (db st))"
  using assms
  by (auto simp: processSegment_def Let_def split: option.splits if_splits)


lemma fetcher_segment_requests:
  "prefix (requests st) (requests (fetcher_segment env seg base st))"
  by (auto simp: fetcher_segment_def Let_def split: option.splits)

lemma fetcher_segments_requests:
  "prefix (requests st) (requests (fetcher_segments env segs base st))"
proof (induction env segs base st rule: fetcher_segments.induct)
  case (3 env segment segs main_url st)
  let ?st' = "fetcher_segment env segment main_url st"
  show ?case
  proof (cases "panicked ?st'")
    case True
    then show ?thesis by (simp add: fetcher_segment_requests)
  next
    case False
    with "3.IH"[OF refl False] fetcher_segment_requests[of st env segment main_url]
    show ?thesis by (auto simp: Let_def intro: prefix_order.order_trans)
  qed
qed simp_all

lemma fetchLoop_body_requests:
  "prefix (requests st @ [url_String (mainurl st)]) (requests (fst (fetchLoop_body env st)))"
  using processSegments_requests[of "st\<lparr>requests := requests st @ [url_String (mainurl st)]\<rparr>"]
  by (auto simp: fetchLoop_body_def Let_def split: option.splits playlist.splits list.splits)

lemma fetcher_body_requests:
  "prefix (requests st @ [url_String (mainurl st)]) (requests (fst (fetcher_body env st)))"
  using fetcher_segments_requests[of "st\<lparr>requests := requests st @ [url_String (mainurl st)]\<rparr>"]
  by (auto simp: fetcher_body_def Let_def split: option.splits playlist.splits list.splits)

lemma prefix_appendD: "prefix (xs @ ys) zs \<Longrightarrow> prefix xs zs"
  by (auto simp: prefix_def)

lemma fetchLoop_requests: "prefix (requests st) (requests (fetchLoop n env jumped st))"
proof (induction n arbitrary: jumped st)
  case 0
  then show ?case by simp
next
  case (Suc n)
  obtain st' nx where b: "fetchLoop_body env st = (st', nx)" by (cases "fetchLoop_body env st")
  from fetchLoop_body_requests[of st env] b have "prefix (requests st) (requests st')"
    by (auto dest: prefix_appendD)
  with Suc[of st'] b show ?case
    by (cases nx) (auto intro: prefix_order.order_trans)
qed

lemma fetcher_requests: "prefix (requests st) (requests (fetcher n env st))"
proof (induction n arbitrary: st)
  case 0
  then show ?case by simp
next
  case (Suc n)
  from fetcher_body_requests[of st env]
  have "prefix (requests st) (requests (fst (fetcher_body env st)))"
    by (auto dest: prefix_appendD)
  with Suc[of "fst (fetcher_body env st)"] show ?case
    by (auto intro: prefix_order.order_trans)
qed

text \<open>
  C9. When the document fetched from \<open>mainurl\<close> decodes to a master playlist, a pass of
  \<open>fetchLoop\<close> and one of \<open>fetcher\<close> resolve the URI of the first variant against
  \<open>mainurl\<close>, make the result the new \<open>mainurl\<close> and go to \<open>start_at\<close>; the other variants
  have no part in the result. The next request of the loop is to that URL.
\<close>

theorem master_selects_first_variant:
  assumes fetched: "http_get env (length (requests st)) (url_String (mainurl st)) = Some bytes"
    and master: "m3u8_Decode env bytes = Some (MASTER (variant # others))"
    and resolved: "resolve env (mainurl st) (Variant_URI variant) = Some u"
  shows "fetchLoop_body env st =
           (st\<lparr>requests := requests st @ [url_String (mainurl st)], mainurl := u\<rparr>, Goto_start_at)
       \<and> fetcher_body env st =
           (st\<lparr>requests := requests st @ [url_String (mainurl st)], mainurl := u\<rparr>, Goto_start_at)
       \<and> (\<not> panicked st \<and> (jumped \<or> running st) \<longrightarrow>
            prefix (requests st @ [url_String (mainurl st), url_String u])
                   (requests (fetchLoop (Suc (Suc n)) env jumped st)))
       \<and> (\<not> panicked st \<longrightarrow>
            prefix (requests st @ [url_String (mainurl st), url_String u])
                   (requests (fetcher (Suc (Suc n)) env st)))"
proof -
  let ?st1 = "st\<lparr>requests := requests st @ [url_String (mainurl st)], mainurl := u\<rparr>"
  have b1: "fetchLoop_body env st = (?st1, Goto_start_at)"
    using assms by (simp add: fetchLoop_body_def Let_def)
  have b2: "fetcher_body env st = (?st1, Goto_start_at)"
    using assms by (simp add: fetcher_body_def Let_def)
  have l: "\<not> panicked st \<and> (jumped \<or> running st) \<longrightarrow>
            prefix (requests st @ [url_String (mainurl st), url_String u])
                   (requests (fetchLoop (Suc (Suc n)) env jumped st))"
  proof
    assume a: "\<not> panicked st \<and> (jumped \<or> running st)"
    obtain st2 nx where b: "fetchLoop_body env ?st1 = (st2, nx)"
      by (cases "fetchLoop_body env ?st1")
    from fetchLoop_body_requests[of ?st1 env] b
    have p: "prefix (requests st @ [url_String (mainurl st), url_String u]) (requests st2)"
      by simp
    have "fetchLoop (Suc (Suc n)) env jumped st = fetchLoop (Suc n) env True ?st1"
      using a b1 by auto
    also have "\<dots> = fetchLoop n env (nx = Goto_start_at) st2"
      using a b by (cases nx) auto
    finally show "prefix (requests st @ [url_String (mainurl st), url_String u])
                   (requests (fetchLoop (Suc (Suc n)) env jumped st))"
      using p fetchLoop_requests[of st2 n env "nx = Goto_start_at"]
      by (auto intro: prefix_order.order_trans)
  qed
  have f: "\<not> panicked st \<longrightarrow>
            prefix (requests st @ [url_String (mainurl st), url_String u])
                   (requests (fetcher (Suc (Suc n)) env st))"
  proof
    assume a: "\<not> panicked st"
    let ?st2 = "fst (fetcher_body env ?st1)"
    from fetcher_body_requests[of ?st1 env]
    have p: "prefix (requests st @ [url_String (mainurl st), url_String u]) (requests ?st2)"
      by simp
    have "fetcher (Suc (Suc n)) env st = fetcher n env ?st2"
      using a b2 by simp
    then show "prefix (requests st @ [url_String (mainurl st), url_String u])
                   (requests (fetcher (Suc (Suc n)) env st))"
      using p fetcher_requests[of ?st2 n env]
      by (auto intro: prefix_order.order_trans)
  qed
  from b1 b2 l f show ?thesis by blast
qed





lemma processSegment_mainurl: "mainurl (processSegment env seg base st) = mainurl st"
  by (simp add: processSegment_def Let_def split: option.splits prod.splits)

lemma processSegment_requests_set:
  "resolve env base (Segment_URI seg) = Some parsed \<Longrightarrow>
   set (requests (processSegment env seg base st))
     \<subseteq> insert (url_String (parsed\<lparr>RawQuery := RawQuery base\<rparr>)) (set (requests st))"
  by (auto simp: processSegment_def Let_def split: option.splits)

lemma origin_get_master: "http_get origin n ''http://origin.example/live/master.m3u8?token=abc'' = Some ''master''"
  by (simp add: origin_defs)

lemma origin_get_low: "http_get origin n ''http://origin.example/live/low.m3u8'' = Some ''low''"
  by (simp add: origin_defs)

lemma origin_decode_master:
  "m3u8_Decode origin ''master'' = Some (MASTER [Variant ''low.m3u8'', Variant ''high.m3u8''])"
  by (simp add: origin_defs)

lemma origin_decode_low:
  "m3u8_Decode origin ''low'' = Some (MEDIA [Some (MediaSegment ''seg7.ts'' (Finite 2))])"
  by (simp add: origin_defs)

lemma origin_resolve_low: "resolve origin master_url ''low.m3u8'' = Some low_url"
  by (simp add: origin_defs)

lemma url_String_master: "url_String master_url = ''http://origin.example/live/master.m3u8?token=abc''"
  by (simp add: url_String_def master_url_def)

lemma url_String_low: "url_String low_url = ''http://origin.example/live/low.m3u8''"
  by (simp add: url_String_def low_url_def)

lemma origin_master_pass:
  "mainurl st = master_url \<Longrightarrow>
   fetchLoop_body origin st =
     (st\<lparr>requests := requests st @ [''http://origin.example/live/master.m3u8?token=abc''],
         mainurl := low_url\<rparr>, Goto_start_at)"
  by (simp add: fetchLoop_body_def url_String_master origin_get_master origin_decode_master
      origin_resolve_low)

lemma origin_low_pass:
  "mainurl st = low_url \<Longrightarrow>
   fetchLoop_body origin st =
     (processSegments origin [Some (MediaSegment ''seg7.ts'' (Finite 2))] low_url
        (st\<lparr>requests := requests st @ [''http://origin.example/live/low.m3u8'']\<rparr>), Continue)"
  by (simp add: fetchLoop_body_def url_String_low origin_get_low origin_decode_low
      del: processSegments.simps)

lemma origin_body_inv:
  assumes "mainurl st = master_url \<or> mainurl st = low_url"
    and "''http://origin.example/live/high.m3u8'' \<notin> set (requests st)"
  shows "(mainurl (fst (fetchLoop_body origin st)) = master_url
          \<or> mainurl (fst (fetchLoop_body origin st)) = low_url)
       \<and> ''http://origin.example/live/high.m3u8'' \<notin> set (requests (fst (fetchLoop_body origin st)))"
proof -
  from assms(1) show ?thesis
  proof
    assume "mainurl st = master_url"
    from origin_master_pass[OF this] assms(2) show ?thesis by simp
  next
    assume low: "mainurl st = low_url"
    let ?st1 = "st\<lparr>requests := requests st @ [''http://origin.example/live/low.m3u8'']\<rparr>"
    let ?st2 = "processSegment origin (MediaSegment ''seg7.ts'' (Finite 2)) low_url ?st1"
    have res: "resolve origin low_url (Segment_URI (MediaSegment ''seg7.ts'' (Finite 2))) = Some segment_url"
      by (simp add: origin_defs)
    have "set (requests ?st2) \<subseteq> insert ''http://origin.example/live/seg7.ts'' (set (requests ?st1))"
      using processSegment_requests_set[OF res, of ?st1]
      by (simp add: url_String_def segment_url_def low_url_def)
    with assms(2) have "''http://origin.example/live/high.m3u8'' \<notin> set (requests ?st2)"
      by auto
    moreover have "mainurl ?st2 = low_url" using low by (simp add: processSegment_mainurl)
    moreover have "fst (fetchLoop_body origin st) = ?st2"
      using origin_low_pass[OF low] by (simp add: Let_def)
    ultimately show ?thesis by simp
  qed
qed

lemma second_variant_never_fetched_aux:
  "mainurl st = master_url \<or> mainurl st = low_url \<Longrightarrow>
   ''http://origin.example/live/high.m3u8'' \<notin> set (requests st) \<Longrightarrow>
   ''http://origin.example/live/high.m3u8'' \<notin> set (requests (fetchLoop n origin jumped st))"
proof (induction n arbitrary: jumped st)
  case 0
  then show ?case by simp
next
  case (Suc n)
  obtain st' nx where b: "fetchLoop_body origin st = (st', nx)"
    by (cases "fetchLoop_body origin st")
  from origin_body_inv[OF Suc.prems] b
  have i: "mainurl st' = master_url \<or> mainurl st' = low_url"
    and r: "''http://origin.example/live/high.m3u8'' \<notin> set (requests st')" by simp_all
  from Suc.IH[OF i r] Suc.prems(2) b show ?case by (cases nx) auto
qed

text \<open>
  On the origin of the example, whose master playlist lists two variants, the second is
  never requested, however long the loop runs.
\<close>

lemma second_variant_never_fetched:
  "''http://origin.example/live/high.m3u8''
     \<notin> set (requests (fetchLoop n origin False (start_state master_url 100)))"
  using second_variant_never_fetched_aux[of "start_state master_url 100" n False]
  by (simp add: start_state_def)



theorem master_selects_first_variant_witness:
  "http_get origin (length (requests (start_state master_url 100)))
       (url_String (mainurl (start_state master_url 100))) = Some ''master''
   \<and> m3u8_Decode origin ''master'' = Some (MASTER [Variant ''low.m3u8'', Variant ''high.m3u8''])
   \<and> resolve origin (mainurl (start_state master_url 100)) (Variant_URI (Variant ''low.m3u8''))
       = Some low_url
   \<and> fetchLoop_body origin (start_state master_url 100) =
       ((start_state master_url 100)
          \<lparr>requests := [''http://origin.example/live/master.m3u8?token=abc''], mainurl := low_url\<rparr>,
        Goto_start_at)
   \<and> prefix [''http://origin.example/live/master.m3u8?token=abc'',
              ''http://origin.example/live/low.m3u8'']
        (requests (fetchLoop 3 origin False (start_state master_url 100)))"
proof -
  have h1: "http_get origin (length (requests (start_state master_url 100)))
       (url_String (mainurl (start_state master_url 100))) = Some ''master''"
    by (simp add: origin_defs)
  have h2: "m3u8_Decode origin ''master''
       = Some (MASTER (Variant ''low.m3u8'' # [Variant ''high.m3u8'']))"
    by (simp add: origin_defs)
  have h3: "resolve origin (mainurl (start_state master_url 100))
       (Variant_URI (Variant ''low.m3u8'')) = Some low_url"
    by (simp add: origin_defs)
  have r: "running (start_state master_url 100) \<and> \<not> panicked (start_state master_url 100)"
    by (simp add: start_state_def)
  have n3: "Suc (Suc 1) = 3" by simp
  from master_selects_first_variant[OF h1 h2 h3, of False 1] h1 h2 h3 r
  show ?thesis unfolding n3 by (simp add: origin_defs)
qed



lemma origin_trace:
  "requests (fetchLoop 3 origin False (start_state master_url 100)) =
     [''http://origin.example/live/master.m3u8?token=abc'', ''http://origin.example/live/low.m3u8'',
      ''http://origin.example/live/seg7.ts'', ''http://origin.example/live/low.m3u8'']"
  by (simp add: numeral_3_eq_3 fetchLoop_body_def processSegment_def
      origin_defs Set_def NewFIFOCache_def evict.simps Let_def)


end
